theory Spec2Isabelle
  imports Complex_Main "HOL-Library.Sublist"
begin

section \<open>Python text primitives\<close>

text \<open>
  Strings are lists of characters. A \<^typ>\<open>char\<close> stands for a code point below 256;
  the whitespace of \<^verbatim>\<open>str.split\<close>, \<^verbatim>\<open>str.strip\<close> and the regular expression class
  \<^verbatim>\<open>\s\<close> is, in that range: tab, line feed, vertical tab, form feed, carriage return,
  the separators 0x1C to 0x1F, space, NEL (0x85) and the no-break space (0xA0).
\<close>

definition is_space :: "char \<Rightarrow> bool" where
  "is_space c = (of_char c \<in> {9, 10, 11, 12, 13, 28, 29, 30, 31, 32, 133, 160 :: nat})"

text \<open>
  \<^verbatim>\<open>text.split()\<close>: the maximal runs of characters that are not whitespace, in order.
  \<open>split_aux cur s\<close> scans \<open>s\<close> with the word begun so far in \<open>cur\<close>.
\<close>

fun split_aux :: "string \<Rightarrow> string \<Rightarrow> string list" where
  "split_aux cur [] = (if cur = [] then [] else [cur])"
| "split_aux cur (c # cs) =
     (if is_space c then (if cur = [] then split_aux [] cs else cur # split_aux [] cs)
      else split_aux (cur @ [c]) cs)"

definition split_ws :: "string \<Rightarrow> string list" where
  "split_ws s = split_aux [] s"

text \<open>\<^verbatim>\<open>' '.join(xs)\<close>\<close>

fun join :: "string list \<Rightarrow> string" where
  "join [] = []"
| "join [x] = x"
| "join (x # y # ys) = x @ '' '' @ join (y # ys)"

text \<open>\<^verbatim>\<open>s.strip()\<close>\<close>

definition strip :: "string \<Rightarrow> string" where
  "strip s = rev (dropWhile is_space (rev (dropWhile is_space s)))"

text \<open>
  \<^verbatim>\<open>xs[i:j]\<close> for arbitrary integers: a negative index counts from the end, and both
  indices are clamped to the list.
\<close>

definition py_slice :: "'a list \<Rightarrow> int \<Rightarrow> int \<Rightarrow> 'a list" where
  "py_slice xs i j =
     (let n = int (length xs);
          lo = (if i < 0 then max (i + n) 0 else min i n);
          hi = (if j < 0 then max (j + n) 0 else min j n)
      in take (nat (hi - lo)) (drop (nat lo) xs))"

section \<open>TextChunker\<close>

text \<open>
  The dictionaries appended to \<^verbatim>\<open>chunks\<close>. Both strategies write the keys
  \<^verbatim>\<open>chunk_id\<close>, \<^verbatim>\<open>text\<close>, \<^verbatim>\<open>word_count\<close> and \<^verbatim>\<open>method\<close>; the word strategy adds
  \<^verbatim>\<open>start_word\<close> and \<^verbatim>\<open>end_word\<close>, the sentence strategy \<^verbatim>\<open>sentence_count\<close>.
  The key \<^verbatim>\<open>text\<close> is the field \<open>ctext\<close>, the key \<^verbatim>\<open>method\<close> the field
  \<open>chunk_method\<close>.
\<close>

record chunk =
  chunk_id :: nat
  ctext :: string
  word_count :: nat
  chunk_method :: string

record word_chunk = chunk +
  start_word :: int
  end_word :: int

record sentence_chunk = chunk +
  sentence_count :: nat

definition count_words :: "string \<Rightarrow> nat" where
  "count_words s = length (split_ws s)"

text \<open>
  The body of the \<^verbatim>\<open>while\<close> loop of \<^verbatim>\<open>chunk_by_words\<close>, from the state
  \<open>(start, chunk_id, chunks)\<close>. The guard after the append reads the start of the chunk
  just appended.
\<close>

function words_loop ::
  "int \<Rightarrow> int \<Rightarrow> string list \<Rightarrow> int \<Rightarrow> nat \<Rightarrow> word_chunk list \<Rightarrow> word_chunk list" where
  "words_loop chunk_size overlap words start cid chunks =
     (if start < int (length words) then
        let end = min (start + chunk_size) (int (length words));
            chunk_words = py_slice words start end;
            chunks' = chunks @ [\<lparr>chunk_id = cid, ctext = join chunk_words,
                                  word_count = length chunk_words, chunk_method = ''word-based'',
                                  start_word = start, end_word = end\<rparr>];
            start' = end - overlap
        in if start' \<le> start_word (last chunks') then chunks'
           else words_loop chunk_size overlap words start' (cid + 1) chunks'
      else chunks)"
  by pat_completeness auto
termination
  by (relation "measure (\<lambda>(chunk_size, overlap, words, start, cid, chunks).
        nat (int (length words) - start))") auto

declare words_loop.simps [simp del]

definition chunk_by_words :: "int \<Rightarrow> int \<Rightarrow> string \<Rightarrow> word_chunk list" where
  "chunk_by_words chunk_size overlap txt = words_loop chunk_size overlap (split_ws txt) 0 0 []"


text \<open>
  The same loop with no termination argument: the value \<open>None\<close> stands for a loop
  that never returns.
\<close>

partial_function (option) words_loop_opt ::
  "int \<Rightarrow> int \<Rightarrow> string list \<Rightarrow> int \<Rightarrow> nat \<Rightarrow> word_chunk list \<Rightarrow> word_chunk list option" where
  "words_loop_opt chunk_size overlap words start cid chunks =
     (if start < int (length words) then
        let end = min (start + chunk_size) (int (length words));
            chunk_words = py_slice words start end;
            chunks' = chunks @ [\<lparr>chunk_id = cid, ctext = join chunk_words,
                                  word_count = length chunk_words, chunk_method = ''word-based'',
                                  start_word = start, end_word = end\<rparr>];
            start' = end - overlap
        in if start' \<le> start_word (last chunks') then Some chunks'
           else words_loop_opt chunk_size overlap words start' (cid + 1) chunks'
      else Some chunks)"

declare words_loop_opt.simps [code]

definition chunk_by_words_opt :: "int \<Rightarrow> int \<Rightarrow> string \<Rightarrow> word_chunk list option" where
  "chunk_by_words_opt chunk_size overlap txt =
     words_loop_opt chunk_size overlap (split_ws txt) 0 0 []"

text \<open>The dictionary that one pass of the loop appends, for the window from \<open>start\<close> to \<open>e\<close>.\<close>

definition mk_chunk :: "string list \<Rightarrow> int \<Rightarrow> int \<Rightarrow> nat \<Rightarrow> word_chunk" where
  "mk_chunk words start e cid =
     \<lparr>chunk_id = cid, ctext = join (py_slice words start e),
      word_count = length (py_slice words start e), chunk_method = ''word-based'',
      start_word = start, end_word = e\<rparr>"

subsection \<open>Sentences\<close>

text \<open>
  \<^verbatim>\<open>re.split(r'(?<=[.!?])\s+', text)\<close>. A match starts at a whitespace character that
  follows one of \<^verbatim>\<open>. ! ?\<close> and takes the whole run of whitespace; the pieces between
  the matches are returned, the last one also when it is empty. \<open>after\<close> says that the
  character before the scanning position is one of the three marks.
\<close>

function re_split_aux :: "bool \<Rightarrow> string \<Rightarrow> string \<Rightarrow> string list" where
  "re_split_aux after cur [] = [cur]"
| "re_split_aux after cur (c # cs) =
     (if after \<and> is_space c then cur # re_split_aux False [] (dropWhile is_space cs)
      else re_split_aux (c \<in> {CHR ''.'', CHR ''!'', CHR ''?''}) (cur @ [c]) cs)"
  by pat_completeness auto
termination
  by (relation "measure (\<lambda>(after, cur, s). length s)")
     (auto simp add: less_Suc_eq_le length_dropWhile_le)

definition split_into_sentences :: "string \<Rightarrow> string list" where
  "split_into_sentences txt =
     map strip (filter (\<lambda>s. strip s \<noteq> []) (re_split_aux False [] txt))"

text \<open>
  The state of the \<^verbatim>\<open>for\<close> loop of \<^verbatim>\<open>chunk_by_sentences\<close>:
  \<open>(chunks, current_chunk, current_word_count, chunk_id)\<close>, and its body for one sentence.
  \<^verbatim>\<open>current_chunk[-2:]\<close> of a list of at least two sentences is its last two.
\<close>

type_synonym sentence_state = "sentence_chunk list \<times> string list \<times> nat \<times> nat"

definition sentence_step :: "int \<Rightarrow> sentence_state \<Rightarrow> string \<Rightarrow> sentence_state" where
  "sentence_step chunk_size st sentence =
     (case st of (chunks, current_chunk, current_word_count, cid) \<Rightarrow>
        let sentence_word_count = count_words sentence in
        if int (current_word_count + sentence_word_count) > chunk_size \<and> current_chunk \<noteq> [] then
          let chunks' = chunks @ [\<lparr>chunk_id = cid, ctext = join current_chunk,
                                    word_count = current_word_count, chunk_method = ''sentence-based'',
                                    sentence_count = length current_chunk\<rparr>];
              overlap_sentences =
                (if length current_chunk \<ge> 2 then drop (length current_chunk - 2) current_chunk
                 else current_chunk);
              current_word_count' = sum_list (map count_words overlap_sentences)
          in (chunks', overlap_sentences @ [sentence],
              current_word_count' + sentence_word_count, cid + 1)
        else (chunks, current_chunk @ [sentence],
              current_word_count + sentence_word_count, cid))"

definition chunk_by_sentences :: "int \<Rightarrow> string \<Rightarrow> sentence_chunk list" where
  "chunk_by_sentences chunk_size txt =
     (case foldl (sentence_step chunk_size) ([], [], 0, 0) (split_into_sentences txt) of
        (chunks, current_chunk, current_word_count, cid) \<Rightarrow>
          if current_chunk \<noteq> [] then
            chunks @ [\<lparr>chunk_id = cid, ctext = join current_chunk,
                       word_count = current_word_count, chunk_method = ''sentence-based'',
                       sentence_count = length current_chunk\<rparr>]
          else chunks)"

text \<open>
  Two notions for reasoning about the sentence loop. \<open>carries_over g g'\<close>: the sentence
  list \<open>g'\<close> begins with the last two sentences of \<open>g\<close> (with all of \<open>g\<close> when it has
  fewer) and goes on after them. \<open>sent_inv seen groups st\<close>: after the sentences \<open>seen\<close>,
  the chunks of the state \<open>st\<close> are the joined sentence lists \<open>groups\<close>, and the open chunk
  is a tail of \<open>seen\<close>.
\<close>

definition carries_over :: "string list \<Rightarrow> string list \<Rightarrow> bool" where
  "carries_over g g' =
     (take (min 2 (length g)) g' = drop (length g - min 2 (length g)) g \<and>
      min 2 (length g) < length g')"

definition sent_inv :: "string list \<Rightarrow> string list list \<Rightarrow> sentence_state \<Rightarrow> bool" where
  "sent_inv seen groups st =
     (case st of (chunks, cur, cwc, cid) \<Rightarrow>
        map ctext chunks = map join groups \<and>
        map sentence_count chunks = map length groups \<and>
        map word_count chunks = map (\<lambda>g. sum_list (map count_words g)) groups \<and>
        map chunk_id chunks = [0 ..< length chunks] \<and>
        cid = length chunks \<and>
        cwc = sum_list (map count_words cur) \<and>
        suffix cur seen \<and>
        (seen \<noteq> [] \<longrightarrow> cur \<noteq> []) \<and>
        (\<forall>g \<in> set groups. g \<noteq> [] \<and> sublist g seen) \<and>
        successively carries_over (groups @ [cur]) \<and>
        set seen \<subseteq> \<Union> (set ` set (groups @ [cur])) \<and>
        (seen \<noteq> [] \<longrightarrow> hd (hd (groups @ [cur])) = hd seen))"

section \<open>TextCleaner\<close>

text \<open>
  \<^verbatim>\<open>str.lower\<close> on the code points below 256: the letters A to Z and the accented capitals
  0xC0 to 0xDE (the multiplication sign 0xD7 apart) move up by 32.
\<close>

definition py_lower :: "char \<Rightarrow> char" where
  "py_lower c =
     (let n = (of_char c :: nat)
      in if (65 \<le> n \<and> n \<le> 90) \<or> (192 \<le> n \<and> n \<le> 222 \<and> n \<noteq> 215)
         then char_of (n + 32) else c)"

definition is_az :: "char \<Rightarrow> bool" where
  "is_az c = (97 \<le> (of_char c :: nat) \<and> (of_char c :: nat) \<le> 122)"

definition is_09 :: "char \<Rightarrow> bool" where
  "is_09 c = (48 \<le> (of_char c :: nat) \<and> (of_char c :: nat) \<le> 57)"

text \<open>\<^verbatim>\<open>re.sub(r'\s+', ' ', text)\<close>: every maximal run of whitespace becomes one space.\<close>

function collapse_ws :: "string \<Rightarrow> string" where
  "collapse_ws [] = []"
| "collapse_ws (c # cs) =
     (if is_space c then CHR '' '' # collapse_ws (dropWhile is_space cs)
      else c # collapse_ws cs)"
  by pat_completeness auto
termination
  by (relation "measure length") (auto simp add: less_Suc_eq_le length_dropWhile_le)

definition clean_text :: "string \<Rightarrow> string" where
  "clean_text txt =
     (let t1 = map py_lower txt;
          t2 = strip t1;
          t3 = filter (\<lambda>c. is_az c \<or> is_09 c \<or> is_space c) t2
      in collapse_ws t3)"

definition tokenize :: "string \<Rightarrow> string list" where
  "tokenize txt = split_ws (clean_text txt)"

section \<open>Errors\<close>

text \<open>
  The exception the modelled code can raise: the \<^verbatim>\<open>TypeError\<close> of subscripting
  \<^verbatim>\<open>None\<close>.
\<close>

datatype py_error = TypeError

section \<open>FAQFinder\<close>

text \<open>
  Similarity scores and thresholds are Python floats; they are modelled as exact rationals.
\<close>

record faq =
  question :: string
  answer :: string
  question_clean :: string

record match_result =
  res_answer :: string
  confidence :: rat
  matched_question :: "string option"

definition stop_words :: "string set" where
  "stop_words = set
     [''a'', ''an'', ''the'', ''is'', ''are'', ''am'', ''be'', ''to'', ''of'', ''in'',
      ''on'', ''at'', ''for'', ''with'', ''do'', ''does'', ''i'', ''you'', ''we'',
      ''they'', ''there'', ''can'', ''will'', ''it'', ''what'', ''how'', ''when'', ''where'']"

definition synonyms :: "string \<rightharpoonup> string list" where
  "synonyms = map_of
     [(''sign'', [''register'', ''signup'', ''join'', ''enroll'']),
      (''register'', [''sign'', ''signup'', ''join'', ''enroll'']),
      (''signup'', [''sign'', ''register'', ''join'', ''enroll'']),
      (''pay'', [''fee'', ''cost'', ''price'', ''money'', ''charge'']),
      (''fee'', [''pay'', ''cost'', ''price'', ''money'', ''charge'']),
      (''cost'', [''pay'', ''fee'', ''price'', ''money'', ''charge'']),
      (''start'', [''schedule'', ''time'', ''begin'', ''when'']),
      (''time'', [''schedule'', ''start'', ''when'']),
      (''when'', [''time'', ''schedule'', ''start'']),
      (''where'', [''venue'', ''location'', ''place'']),
      (''venue'', [''where'', ''location'', ''place'']),
      (''location'', [''where'', ''venue'', ''place''])]"

definition add_faq :: "faq list \<Rightarrow> string \<Rightarrow> string \<Rightarrow> faq list" where
  "add_faq faqs q a =
     faqs @ [\<lparr>question = q, answer = a, question_clean = clean_text q\<rparr>]"

definition expand_with_synonyms :: "string set \<Rightarrow> string set" where
  "expand_with_synonyms words =
     words \<union> (\<Union>word \<in> words. case synonyms word of None \<Rightarrow> {} | Some syns \<Rightarrow> set syns)"

text \<open>
  The token set of a cleaned text: stop words removed, synonyms added, and the unfiltered
  tokens when that leaves nothing.
\<close>

definition token_set :: "string \<Rightarrow> string set" where
  "token_set cleaned =
     (let words_raw = set (split_ws cleaned) - stop_words;
          words = expand_with_synonyms words_raw
      in if words = {} then set (split_ws cleaned) else words)"

definition jaccard :: "string set \<Rightarrow> string set \<Rightarrow> rat" where
  "jaccard user_words faq_words =
     (let intersection = user_words \<inter> faq_words;
          union = user_words \<union> faq_words
      in if union \<noteq> {} then of_nat (card intersection) / of_nat (card union) else 0)"

text \<open>The body of the scan over \<^verbatim>\<open>self.faqs\<close>, on the state \<open>(best_match, best_score)\<close>.\<close>

definition scan_step :: "string set \<Rightarrow> faq option \<times> rat \<Rightarrow> faq \<Rightarrow> faq option \<times> rat" where
  "scan_step user_words st f =
     (case st of (best_match, best_score) \<Rightarrow>
        let score = jaccard user_words (token_set (question_clean f))
        in if score > best_score then (Some f, score) else (best_match, best_score))"

definition find_answer :: "faq list \<Rightarrow> string \<Rightarrow> rat \<Rightarrow> py_error + match_result" where
  "find_answer faqs user_question threshold =
     (if faqs = [] then
        Inr \<lparr>res_answer = ''No FAQs loaded.'', confidence = 0, matched_question = None\<rparr>
      else
        let user_words = token_set (clean_text user_question);
            (best_match, best_score) = foldl (scan_step user_words) (None, 0) faqs
        in if best_score < threshold then
             Inr \<lparr>res_answer = ''I couldn't find a good answer found.'',
                  confidence = best_score, matched_question = None\<rparr>
           else (case best_match of
                   None \<Rightarrow> Inl TypeError
                 | Some f \<Rightarrow>
                     Inr \<lparr>res_answer = answer f, confidence = best_score,
                          matched_question = Some (question f)\<rparr>))"

section \<open>RAGAgent\<close>

text \<open>
  A retrieved passage, as \<^verbatim>\<open>KnowledgeBase.query\<close> builds it. The key \<^verbatim>\<open>text\<close> is the field
  \<open>ptext\<close>; \<open>similarity\<close> is \<open>None\<close> when the key is absent and \<open>Some None\<close> when it
  holds Python's \<^verbatim>\<open>None\<close>.
\<close>

record passage =
  ptext :: string
  metadata :: "string \<rightharpoonup> string"
  similarity :: "rat option option"

record source_summary =
  src_text :: string
  src_metadata :: "string \<rightharpoonup> string"
  src_similarity :: "rat option"

record answer_result =
  ar_query :: string
  ar_answer :: string
  sources :: "source_summary list"
  num_sources :: nat
  has_sources :: bool

text \<open>\<^verbatim>\<open>str(i)\<close> for a natural number.\<close>

function show_nat :: "nat \<Rightarrow> string" where
  "show_nat n =
     (if n < 10 then [char_of (48 + n)] else show_nat (n div 10) @ [char_of (48 + n mod 10)])"
  by pat_completeness auto
termination
  by (relation "measure id") auto

declare show_nat.simps [simp del]

text \<open>
  The knowledge base is absent or a query function; the completion service is a function
  from the prompt to the text it returns.
\<close>

definition retrieve_context ::
  "(string \<Rightarrow> int \<Rightarrow> passage list) option \<Rightarrow> string \<Rightarrow> int \<Rightarrow> passage list" where
  "retrieve_context knowledge_base query top_k =
     (case knowledge_base of None \<Rightarrow> [] | Some kb_query \<Rightarrow> kb_query query top_k)"

text \<open>The loop that appends one labelled block per passage, numbered from \<open>i\<close>.\<close>

fun context_blocks :: "nat \<Rightarrow> passage list \<Rightarrow> string" where
  "context_blocks i [] = []"
| "context_blocks i (chunk # rest) =
     (let source = (case metadata chunk ''source'' of None \<Rightarrow> ''Unknown Source'' | Some s \<Rightarrow> s)
      in ''[Source '' @ show_nat i @ '': '' @ source @ '']\<newline>'' @ ptext chunk
         @ ''\<newline>\<newline>'' @ context_blocks (i + 1) rest)"

definition build_prompt_with_context :: "string \<Rightarrow> passage list \<Rightarrow> string" where
  \<open>build_prompt_with_context query context_chunks =
     (if context_chunks = [] then
        ''The user asked: "'' @ query @ ''"\<newline>\<newline>You don't have any relevant information in your knowledge base to answer this question.\<newline>Please respond honestly that you don't have this information available, and suggest \<newline>that the user might need to provide relevant documents or ask a different question.''
      else
        let context_text =
              ''=== KNOWLEDGE BASE CONTEXT ===\<newline>\<newline>''
              @ ''Here are relevant excerpts from the knowledge base:\<newline>\<newline>''
              @ context_blocks 1 context_chunks
        in context_text
           @ ''\<newline>=== USER QUESTION ===\<newline>\<newline>'' @ query
           @ ''\<newline>\<newline>=== INSTRUCTIONS ===\<newline>\<newline>Please answer the user's question using ONLY the information provided in the context above.\<newline>\<newline>Important guidelines:\<newline>1. Cite which source(s) you used (e.g., "According to Source 1...", "Source 2 states...")\<newline>2. If the context contains the answer, provide it clearly and concisely\<newline>3. If the context doesn't fully answer the question, say so and explain what information is available\<newline>4. DO NOT make up information or use knowledge outside the provided context\<newline>5. Be helpful and conversational while staying factual\<newline>\<newline>Your answer:'')\<close>

definition summarize :: "passage \<Rightarrow> source_summary" where
  "summarize chunk =
     \<lparr>src_text = (if length (ptext chunk) > 300 then take 300 (ptext chunk) @ ''...''
                  else ptext chunk),
      src_metadata = metadata chunk,
      src_similarity = (case similarity chunk of None \<Rightarrow> Some 0 | Some v \<Rightarrow> v)\<rparr>"

definition rag_answer ::
  "(string \<Rightarrow> int \<Rightarrow> passage list) option \<Rightarrow> (string \<Rightarrow> string) \<Rightarrow> string \<Rightarrow> int
     \<Rightarrow> answer_result" where
  "rag_answer knowledge_base generate query top_k =
     (let context_chunks = retrieve_context knowledge_base query top_k;
          prompt = build_prompt_with_context query context_chunks;
          answer_text = generate prompt
      in \<lparr>ar_query = query, ar_answer = answer_text,
          sources = map summarize context_chunks,
          num_sources = length context_chunks,
          has_sources = (length context_chunks > 0)\<rparr>)"

section \<open>Word-based segmentation: the loop\<close>

lemma words_loop_opt_total:
  "words_loop_opt chunk_size overlap words start cid chunks
     = Some (words_loop chunk_size overlap words start cid chunks)"
proof (induction chunk_size overlap words start cid chunks rule: words_loop.induct)
  case (1 chunk_size overlap words start cid chunks)
  show ?case
    apply (subst words_loop_opt.simps)
    apply (subst words_loop.simps)
    using 1
    apply (simp add: Let_def)
    done
qed

lemma words_loop_step:
  "words_loop chunk_size overlap words start cid chunks =
     (if start < int (length words) then
        (if min (start + chunk_size) (int (length words)) - overlap \<le> start
         then chunks @ [mk_chunk words start (min (start + chunk_size) (int (length words))) cid]
         else words_loop chunk_size overlap words (min (start + chunk_size) (int (length words)) - overlap) (Suc cid)
               (chunks @ [mk_chunk words start (min (start + chunk_size) (int (length words))) cid]))
      else chunks)"
  by (subst words_loop.simps) (simp add: Let_def mk_chunk_def)

lemma words_loop_acc:
  "words_loop chunk_size overlap words start cid chunks
     = chunks @ words_loop chunk_size overlap words start cid []"
proof (induction "nat (int (length words) - start)" arbitrary: start cid chunks rule: less_induct)
  case less
  let ?e = "min (start + chunk_size) (int (length words))"
  let ?c = "mk_chunk words start ?e cid"
  show ?case
  proof (cases "start < int (length words) \<and> \<not> ?e - overlap \<le> start")
    case True
    have a: "words_loop chunk_size overlap words start cid chunks
        = words_loop chunk_size overlap words (?e - overlap) (Suc cid) (chunks @ [?c])"
      using True by (subst words_loop_step) simp
    have b: "words_loop chunk_size overlap words start cid []
        = words_loop chunk_size overlap words (?e - overlap) (Suc cid) [?c]"
      using True by (subst words_loop_step) simp
    have m: "nat (int (length words) - (?e - overlap)) < nat (int (length words) - start)"
      using True by linarith
    show ?thesis
      unfolding a b
      by (subst less.hyps [OF m], subst (2) less.hyps [OF m]) simp
  next
    case False
    then show ?thesis
      by (subst words_loop_step, subst (2) words_loop_step) auto
  qed
qed

lemma words_loop_Nil:
  "\<not> start < int (length words) \<Longrightarrow> words_loop chunk_size overlap words start cid [] = []"
  by (subst words_loop_step) simp

lemma words_loop_Cons:
  "start < int (length words) \<Longrightarrow>
   words_loop chunk_size overlap words start cid [] =
     mk_chunk words start (min (start + chunk_size) (int (length words))) cid #
     (if min (start + chunk_size) (int (length words)) - overlap \<le> start then []
      else words_loop chunk_size overlap words
             (min (start + chunk_size) (int (length words)) - overlap) (Suc cid) [])"
  by (subst words_loop_step, subst words_loop_acc) simp

lemma len_slice: "0 \<le> i \<Longrightarrow> i \<le> j \<Longrightarrow> j \<le> int (length xs) \<Longrightarrow> length (py_slice xs i j) = nat (j - i)"
  by (simp add: py_slice_def Let_def)

lemma words_loop_induct [case_names step]:
  fixes words :: "'a list" and P :: "int \<Rightarrow> nat \<Rightarrow> bool"
  assumes "\<And>start cid.
     (start < int (length words) \<Longrightarrow>
      \<not> min (start + chunk_size) (int (length words)) - overlap \<le> start \<Longrightarrow>
      P (min (start + chunk_size) (int (length words)) - overlap) (Suc cid)) \<Longrightarrow> P start cid"
  shows "P start cid"
proof (induction "nat (int (length words) - start)" arbitrary: start cid rule: less_induct)
  case less
  show ?case
    apply (rule assms)
    apply (rule less.hyps)
    apply linarith
    done
qed

lemma words_loop_ids:
  "map chunk_id (words_loop chunk_size overlap words start cid []) =
     [cid ..< cid + length (words_loop chunk_size overlap words start cid [])]"
proof (induction start cid rule: words_loop_induct [where words = words and chunk_size = chunk_size and overlap = overlap])
  case (step start cid)
  show ?case
  proof (cases "start < int (length words)")
    case True
    then show ?thesis
      using step by (simp add: words_loop_Cons mk_chunk_def upt_rec)
  next
    case False
    then show ?thesis by (simp add: words_loop_Nil)
  qed
qed

lemma words_loop_hd:
  "start < int (length words) \<Longrightarrow>
   words_loop chunk_size overlap words start cid [] \<noteq> [] \<and>
   start_word (hd (words_loop chunk_size overlap words start cid [])) = start \<and> 
   end_word (hd (words_loop chunk_size overlap words start cid [])) = min (start + chunk_size) (int (length words))"
  by (simp add: words_loop_Cons mk_chunk_def)

lemma words_loop_cover:
  assumes "0 \<le> overlap" "overlap < chunk_size"
  shows "start < int (length words) \<Longrightarrow>
    (\<Union>c \<in> set (words_loop chunk_size overlap words start cid []). {start_word c ..< end_word c})
      = {start ..< int (length words)}"
proof (induction start cid rule: words_loop_induct [where words = words and chunk_size = chunk_size and overlap = overlap])
  case (step start cid)
  let ?n = "int (length words)"
  let ?e = "min (start + chunk_size) ?n"
  show ?case
  proof (cases "?e - overlap \<le> start")
    case True
    with assms step.prems have "?e = ?n" by linarith
    with True step.prems show ?thesis
      by (simp add: words_loop_Cons mk_chunk_def)
  next
    case False
    show ?thesis
    proof (cases "?e - overlap < ?n")
      case True
      have "(\<Union>c \<in> set (words_loop chunk_size overlap words (?e - overlap) (Suc cid) []). {start_word c ..< end_word c})
         = {?e - overlap ..< ?n}"
        using step.IH [OF step.prems False True] .
      moreover have "{start ..< ?e} \<union> {?e - overlap ..< ?n} = {start ..< ?n}"
        using False assms step.prems by auto
      ultimately show ?thesis
        using False step.prems by (simp add: words_loop_Cons mk_chunk_def)
    next
      case nt: False
      with assms step.prems have "?e = ?n" by linarith
      with nt False step.prems show ?thesis
        by (simp add: words_loop_Cons words_loop_Nil mk_chunk_def)
    qed
  qed
qed

lemma words_loop_chain:
  "successively (\<lambda>c c'. start_word c' = end_word c - overlap \<and> start_word c < start_word c' \<and> end_word c \<le> end_word c')
     (words_loop chunk_size overlap words start cid [])"
proof (induction start cid rule: words_loop_induct [where words = words and chunk_size = chunk_size and overlap = overlap])
  case (step start cid)
  let ?n = "int (length words)"
  let ?e = "min (start + chunk_size) ?n"
  show ?case
  proof (cases "start < ?n")
    case True
    show ?thesis
    proof (cases "\<not> ?e - overlap \<le> start \<and> ?e - overlap < ?n")
      case t: True
      then obtain c cs where eq: "words_loop chunk_size overlap words (?e - overlap) (Suc cid) [] = c # cs"
        and c: "start_word c = ?e - overlap" "end_word c = min (?e - overlap + chunk_size) ?n"
        using words_loop_hd [of "?e - overlap" words chunk_size overlap "Suc cid"]
        by (cases "words_loop chunk_size overlap words (?e - overlap) (Suc cid) []") auto
      have "successively (\<lambda>c c'. start_word c' = end_word c - overlap \<and> start_word c < start_word c' \<and> end_word c \<le> end_word c') (c # cs)"
        using step.IH [OF True] t eq by simp
      moreover have "?e \<le> end_word c" using c t True by linarith
      ultimately show ?thesis
        using True t eq c by (simp add: words_loop_Cons mk_chunk_def)
    next
      case False
      then show ?thesis
        using True by (auto simp add: words_loop_Cons words_loop_Nil mk_chunk_def)
    qed
  next
    case False
    then show ?thesis by (simp add: words_loop_Nil)
  qed
qed

lemma words_loop_each:
  assumes "0 \<le> overlap" "overlap < chunk_size"
  shows "0 \<le> start \<Longrightarrow> c \<in> set (words_loop chunk_size overlap words start cid []) \<Longrightarrow>
     0 \<le> start_word c \<and> start_word c < end_word c \<and> end_word c \<le> int (length words) \<and>
     ctext c = join (py_slice words (start_word c) (end_word c)) \<and>
     word_count c = nat (end_word c - start_word c) \<and>
     int (word_count c) \<le> chunk_size \<and>
     (end_word c < int (length words) \<longrightarrow> int (word_count c) = chunk_size)"
proof (induction start cid rule: words_loop_induct [where words = words and chunk_size = chunk_size and overlap = overlap])
  case (step start cid)
  let ?n = "int (length words)"
  let ?e = "min (start + chunk_size) ?n"
  show ?case
  proof (cases "start < ?n")
    case True
    have hd: "c = mk_chunk words start ?e cid \<Longrightarrow> ?thesis"
      using True assms step.prems(1) by (simp add: mk_chunk_def len_slice)
    show ?thesis
    proof (cases "?e - overlap \<le> start")
      case t: True
      then have "c = mk_chunk words start ?e cid"
        using step.prems True by (simp add: words_loop_Cons)
      then show ?thesis by (rule hd)
    next
      case False
      then have "c = mk_chunk words start ?e cid \<or> c \<in> set (words_loop chunk_size overlap words (?e - overlap) (Suc cid) [])"
        using step.prems True by (simp add: words_loop_Cons)
      then show ?thesis
      proof
        assume "c = mk_chunk words start ?e cid" then show ?thesis by (rule hd)
      next
        assume "c \<in> set (words_loop chunk_size overlap words (?e - overlap) (Suc cid) [])"
        moreover have "0 \<le> ?e - overlap" using False step.prems(1) by linarith
        ultimately show ?thesis using step.IH [OF True False] by blast
      qed
    qed
  next
    case False
    then show ?thesis using step.prems by (simp add: words_loop_Nil)
  qed
qed


section \<open>Splitting and joining\<close>

lemma split_aux_nospace:
  "\<forall>c \<in> set w. \<not> is_space c \<Longrightarrow> split_aux cur (w @ r) = split_aux (cur @ w) r"
  by (induction w arbitrary: cur) auto

lemma split_aux_sep:
  "is_space sp \<Longrightarrow> split_aux cur (a @ sp # b) = split_aux cur a @ split_aux [] b"
  by (induction a arbitrary: cur) auto

lemma split_aux_words:
  "\<forall>c \<in> set cur. \<not> is_space c \<Longrightarrow> w \<in> set (split_aux cur s) \<Longrightarrow>
     w \<noteq> [] \<and> (\<forall>c \<in> set w. \<not> is_space c)"
proof (induction s arbitrary: cur)
  case Nil
  then show ?case by (auto split: if_splits)
next
  case (Cons a s)
  show ?case
  proof (cases "is_space a")
    case True
    then have "w = cur \<and> cur \<noteq> [] \<or> w \<in> set (split_aux [] s)"
      using Cons.prems(2) by (auto split: if_splits)
    then show ?thesis
      using Cons.IH [of "[]"] Cons.prems(1) by auto
  next
    case False
    then have "w \<in> set (split_aux (cur @ [a]) s)"
      using Cons.prems(2) by simp
    moreover have "\<forall>c \<in> set (cur @ [a]). \<not> is_space c"
      using False Cons.prems(1) by simp
    ultimately show ?thesis by (rule Cons.IH [rotated])
  qed
qed

lemma split_ws_words:
  "w \<in> set (split_ws s) \<Longrightarrow> w \<noteq> [] \<and> (\<forall>c \<in> set w. \<not> is_space c)"
  unfolding split_ws_def using split_aux_words [of "[]" w s] by simp

lemma is_space_blank: "is_space CHR '' ''"
  by (simp add: is_space_def)

lemma split_ws_word:
  "w \<noteq> [] \<Longrightarrow> \<forall>c \<in> set w. \<not> is_space c \<Longrightarrow> split_ws w = [w]"
  unfolding split_ws_def using split_aux_nospace [of w "[]" "[]"] by simp

lemma split_ws_join:
  "split_ws (join ss) = concat (map split_ws ss)"
proof (induction ss rule: join.induct)
  case 1
  show ?case by (simp add: split_ws_def)
next
  case (2 x)
  show ?case by simp
next
  case (3 x y ys)
  have "split_ws (x @ CHR '' '' # join (y # ys)) = split_ws x @ split_ws (join (y # ys))"
    unfolding split_ws_def by (rule split_aux_sep) (rule is_space_blank)
  with 3 show ?case by simp
qed

lemma split_ws_join_words:
  assumes "\<forall>w \<in> set ws. w \<noteq> [] \<and> (\<forall>c \<in> set w. \<not> is_space c)"
  shows "split_ws (join ws) = ws"
proof -
  have "concat (map split_ws ws) = ws"
    using assms by (induction ws) (simp_all add: split_ws_word)
  then show ?thesis by (simp add: split_ws_join)
qed

lemma count_words_join:
  "count_words (join ss) = sum_list (map count_words ss)"
proof -
  have e: "count_words = (\<lambda>s. length (split_ws s))"
    by (simp add: fun_eq_iff count_words_def)
  show ?thesis
    unfolding e by (simp add: split_ws_join length_concat comp_def)
qed

lemma set_py_slice: "set (py_slice xs i j) \<subseteq> set xs"
  unfolding py_slice_def Let_def
  by (meson set_drop_subset set_take_subset subset_trans)

lemma split_ws_replicate:
  "split_ws (concat (replicate n ''a '')) = replicate n ''a''"
proof (induction n)
  case 0
  show ?case by (simp add: split_ws_def)
next
  case (Suc n)
  then show ?case by (simp add: split_ws_def is_space_def)
qed

lemma words_loop_mk:
  "c \<in> set (words_loop chunk_size overlap words start cid []) \<Longrightarrow>
   \<exists>s e k. c = mk_chunk words s e k"
proof (induction start cid rule: words_loop_induct [where words = words and chunk_size = chunk_size and overlap = overlap])
  case (step start cid)
  show ?case
  proof (cases "start < int (length words)")
    case True
    then show ?thesis
      using step by (auto simp add: words_loop_Cons split: if_splits)
  next
    case False
    then show ?thesis using step.prems by (simp add: words_loop_Nil)
  qed
qed

lemma word_chunk_count:
  assumes "c \<in> set (chunk_by_words chunk_size overlap t)"
  shows "word_count c = count_words (ctext c)"
proof -
  from assms obtain s e k where c: "c = mk_chunk (split_ws t) s e k"
    unfolding chunk_by_words_def using words_loop_mk by blast
  have "\<forall>w \<in> set (py_slice (split_ws t) s e). w \<noteq> [] \<and> (\<forall>c \<in> set w. \<not> is_space c)"
    using set_py_slice [of "split_ws t" s e] split_ws_words by blast
  then have "split_ws (join (py_slice (split_ws t) s e)) = py_slice (split_ws t) s e"
    by (rule split_ws_join_words)
  then show ?thesis by (simp add: c mk_chunk_def count_words_def)
qed



section \<open>Sentence-based segmentation: the loop invariant\<close>

lemma sent_inv_init: "sent_inv [] [] ([], [], 0, 0)"
  by (simp add: sent_inv_def)

lemma carries_over_snoc: "carries_over g g' \<Longrightarrow> carries_over g (g' @ [s])"
  by (simp add: carries_over_def)

lemma carries_over_close:
  "cur \<noteq> [] \<Longrightarrow>
   carries_over cur ((if length cur \<ge> 2 then drop (length cur - 2) cur else cur) @ [s])"
  by (auto simp add: carries_over_def min_def)

lemma sublist_snocI: "sublist g seen \<Longrightarrow> sublist g (seen @ [s])"
  by (simp add: sublist_snoc)

lemma successively_snoc_last:
  "successively P (gs @ [c]) \<Longrightarrow> (\<And>g. P g c \<Longrightarrow> P g c') \<Longrightarrow> successively P (gs @ [c'])"
  by (auto simp add: successively_append_iff)

lemma sent_inv_step:
  assumes "sent_inv seen groups st"
  shows "\<exists>groups'. sent_inv (seen @ [s]) groups' (sentence_step chunk_size st s)"
proof -
  obtain chunks cur cwc cid where st: "st = (chunks, cur, cwc, cid)"
    by (cases st) auto
  note inv = assms [unfolded st sent_inv_def, simplified]
  have g0: "seen = [] \<Longrightarrow> groups = []"
  proof (rule ccontr)
    assume "seen = []" "groups \<noteq> []"
    then obtain g where "g \<in> set groups" by (cases groups) auto
    with inv \<open>seen = []\<close> show False by auto
  qed
  show ?thesis
  proof (cases "int (cwc + count_words s) > chunk_size \<and> cur \<noteq> []")
    case True
    let ?ov = "if length cur \<ge> 2 then drop (length cur - 2) cur else cur"
    let ?c = "\<lparr>chunk_id = cid, ctext = join cur, word_count = cwc,
               chunk_method = ''sentence-based'', sentence_count = length cur\<rparr>"
    have step: "sentence_step chunk_size st s =
       (chunks @ [?c], ?ov @ [s], sum_list (map count_words ?ov) + count_words s, cid + 1)"
      using True by (simp add: sentence_step_def st Let_def)
    have sfx: "suffix ?ov cur" by (simp add: suffix_drop)
    have seen: "seen \<noteq> []" using True inv by auto
    have a: "suffix (?ov @ [s]) (seen @ [s])"
      using sfx inv by (meson suffix_order.trans suffix_append same_suffix_suffix)
    have b: "\<forall>g \<in> set (groups @ [cur]). g \<noteq> [] \<and> sublist g (seen @ [s])"
      using inv True by (auto intro: sublist_snocI)
    have c: "successively carries_over ((groups @ [cur]) @ [?ov @ [s]])"
      using inv True carries_over_close [of cur s]
      by (subst successively_append_iff) simp
    have d: "set (seen @ [s]) \<subseteq> \<Union> (set ` set ((groups @ [cur]) @ [?ov @ [s]]))"
      using inv by auto
    have e: "hd (hd ((groups @ [cur]) @ [?ov @ [s]])) = hd (seen @ [s])"
      using inv seen by (cases groups) auto
    have "sent_inv (seen @ [s]) (groups @ [cur]) (sentence_step chunk_size st s)"
      unfolding step sent_inv_def using inv a b c d e True by simp
    then show ?thesis ..
  next
    case False
    have step: "sentence_step chunk_size st s = (chunks, cur @ [s], cwc + count_words s, cid)"
      using False by (auto simp add: sentence_step_def st Let_def)
    have a: "suffix (cur @ [s]) (seen @ [s])" using inv by simp
    have b: "\<forall>g \<in> set groups. g \<noteq> [] \<and> sublist g (seen @ [s])"
      using inv by (auto intro: sublist_snocI)
    have c: "successively carries_over (groups @ [cur @ [s]])"
      using inv by (auto intro: successively_snoc_last carries_over_snoc)
    have d: "set (seen @ [s]) \<subseteq> \<Union> (set ` set (groups @ [cur @ [s]]))"
      using inv by auto
    have e: "hd (hd (groups @ [cur @ [s]])) = hd (seen @ [s])"
    proof (cases "seen = []")
      case True
      with g0 inv show ?thesis by simp
    next
      case ne: False
      with inv show ?thesis by (cases groups) auto
    qed
    have "sent_inv (seen @ [s]) groups (sentence_step chunk_size st s)"
      unfolding step sent_inv_def using inv a b c d e by simp
    then show ?thesis ..
  qed
qed

lemma sent_inv_foldl:
  "sent_inv seen groups st \<Longrightarrow>
   \<exists>groups'. sent_inv (seen @ ss) groups' (foldl (sentence_step chunk_size) st ss)"
proof (induction ss arbitrary: seen groups st)
  case Nil
  then show ?case by auto
next
  case (Cons s ss)
  from sent_inv_step [OF Cons.prems, of s chunk_size]
  obtain groups1 where "sent_inv (seen @ [s]) groups1 (sentence_step chunk_size st s)" ..
  from Cons.IH [OF this] show ?case by simp
qed

lemma chunk_by_sentences_groups:
  "\<exists>groups.
     map ctext (chunk_by_sentences chunk_size txt) = map join groups \<and>
     map sentence_count (chunk_by_sentences chunk_size txt) = map length groups \<and>
     map word_count (chunk_by_sentences chunk_size txt)
       = map (\<lambda>g. sum_list (map count_words g)) groups \<and>
     map chunk_id (chunk_by_sentences chunk_size txt)
       = [0 ..< length (chunk_by_sentences chunk_size txt)] \<and>
     (\<forall>g \<in> set groups. g \<noteq> [] \<and> sublist g (split_into_sentences txt)) \<and>
     successively carries_over groups \<and>
     set (split_into_sentences txt) \<subseteq> \<Union> (set ` set groups) \<and>
     (split_into_sentences txt \<noteq> [] \<longrightarrow>
        groups \<noteq> [] \<and> hd (hd groups) = hd (split_into_sentences txt))"
proof -
  let ?ss = "split_into_sentences txt"
  from sent_inv_foldl [OF sent_inv_init, of ?ss chunk_size]
  obtain groups where inv0: "sent_inv ?ss groups (foldl (sentence_step chunk_size) ([], [], 0, 0) ?ss)"
    by auto
  obtain chunks cur cwc cid where st: "foldl (sentence_step chunk_size) ([], [], 0, 0) ?ss = (chunks, cur, cwc, cid)"
    by (cases "foldl (sentence_step chunk_size) ([], [], 0, 0) ?ss") auto
  note inv = inv0 [unfolded st sent_inv_def, simplified]
  show ?thesis
  proof (cases "cur = []")
    case True
    with inv have ss: "?ss = []" by auto
    have "groups = []"
    proof (rule ccontr)
      assume "groups \<noteq> []"
      then obtain g where "g \<in> set groups" by (cases groups) auto
      with inv ss show False by auto
    qed
    with inv True ss have "chunk_by_sentences chunk_size txt = []"
      by (simp add: chunk_by_sentences_def st)
    with ss show ?thesis by (intro exI [of _ "[]"]) simp
  next
    case False
    then have cs: "chunk_by_sentences chunk_size txt =
        chunks @ [\<lparr>chunk_id = cid, ctext = join cur, word_count = cwc,
                   chunk_method = ''sentence-based'', sentence_count = length cur\<rparr>]"
      by (simp add: chunk_by_sentences_def st)
    have b: "\<forall>g \<in> set (groups @ [cur]). g \<noteq> [] \<and> sublist g ?ss"
      using inv False by auto
    have e: "?ss \<noteq> [] \<longrightarrow> groups @ [cur] \<noteq> [] \<and> hd (hd (groups @ [cur])) = hd ?ss"
      using inv by simp
    show ?thesis
      apply (rule exI [of _ "groups @ [cur]"])
      unfolding cs using inv b e by simp
  qed
qed


section \<open>Word-based segmentation: the claims\<close>

lemma words_loop_1200:
  assumes "length words = 1200"
  shows "words_loop 500 50 words 0 0 [] =
    [mk_chunk words 0 500 0, mk_chunk words 450 950 1,
     mk_chunk words 900 1200 2, mk_chunk words 1150 1200 3]"
  using assms by (simp add: words_loop_Cons eval_nat_numeral)

text \<open>
  Claim C1, as amended. A text of exactly 1200 words, segmented by words with chunk size 500
  and overlap 50, gives four chunks: they start at the words 0, 450, 900 and 1150, end at
  500, 950, 1200 and 1200, and hold 500, 500, 300 and 50 words. After the chunk that
  reaches the last word the loop starts once more at 1200 - 50 = 1150, which is past 900,
  and only then stops.
\<close>

theorem chunk_by_words_1200:
  assumes "length (split_ws txt) = 1200"
  shows "map chunk_id (chunk_by_words 500 50 txt) = [0, 1, 2, 3] \<and>
         map start_word (chunk_by_words 500 50 txt) = [0, 450, 900, 1150] \<and>
         map end_word (chunk_by_words 500 50 txt) = [500, 950, 1200, 1200] \<and>
         map word_count (chunk_by_words 500 50 txt) = [500, 500, 300, 50]"
  using assms
  by (simp add: chunk_by_words_def words_loop_1200 mk_chunk_def len_slice)

theorem chunk_by_words_1200_witness:
  "length (split_ws (concat (replicate 1200 ''a ''))) = 1200 \<and>
   map chunk_id (chunk_by_words 500 50 (concat (replicate 1200 ''a ''))) = [0, 1, 2, 3] \<and>
   map start_word (chunk_by_words 500 50 (concat (replicate 1200 ''a ''))) = [0, 450, 900, 1150] \<and>
   map end_word (chunk_by_words 500 50 (concat (replicate 1200 ''a ''))) = [500, 950, 1200, 1200] \<and>
   map word_count (chunk_by_words 500 50 (concat (replicate 1200 ''a ''))) = [500, 500, 300, 50]"
proof -
  have h: "length (split_ws (concat (replicate 1200 ''a ''))) = 1200"
    by (simp add: split_ws_replicate)
  show ?thesis
    using h chunk_by_words_1200 [OF h] by simp
qed

text \<open>
  Claim C1 as stated (three chunks of 500, 500 and 200 words) fails on the text made of
  1200 copies of the word \<open>a\<close>.
\<close>

theorem chunk_by_words_1200_counterexample:
  "length (split_ws (concat (replicate 1200 ''a ''))) = 1200 \<and>
   \<not> (length (chunk_by_words 500 50 (concat (replicate 1200 ''a ''))) = 3 \<and>
      map start_word (chunk_by_words 500 50 (concat (replicate 1200 ''a ''))) = [0, 450, 900] \<and>
      map word_count (chunk_by_words 500 50 (concat (replicate 1200 ''a ''))) = [500, 500, 200])"
proof -
  have h: "length (split_ws (concat (replicate 1200 ''a ''))) = 1200"
    by (simp add: split_ws_replicate)
  have "length (chunk_by_words 500 50 (concat (replicate 1200 ''a ''))) = 4"
    by (simp add: chunk_by_words_def words_loop_1200 [OF h])
  with h show ?thesis by simp
qed


text \<open>
  Claim C3. Word-based segmentation returns for every text and every pair of parameters,
  overlap at or above the chunk size and negative values included: the loop written without
  a termination argument has a result from every state. When the start computed for the
  next window is not past the start of the chunk just appended, the loop returns with that
  chunk as the last one.
\<close>

theorem chunk_by_words_terminates:
  "chunk_by_words_opt chunk_size overlap txt = Some (chunk_by_words chunk_size overlap txt) \<and>
   (\<exists>r. words_loop_opt chunk_size overlap words start cid chunks = Some r) \<and>
   (start < int (length words) \<longrightarrow>
    min (start + chunk_size) (int (length words)) - overlap \<le> start \<longrightarrow>
    words_loop_opt chunk_size overlap words start cid chunks =
      Some (chunks @ [mk_chunk words start (min (start + chunk_size) (int (length words))) cid]))"
proof (intro conjI impI)
  show "chunk_by_words_opt chunk_size overlap txt = Some (chunk_by_words chunk_size overlap txt)"
    by (simp add: chunk_by_words_opt_def chunk_by_words_def words_loop_opt_total)
  show "\<exists>r. words_loop_opt chunk_size overlap words start cid chunks = Some r"
    by (simp add: words_loop_opt_total)
  assume "start < int (length words)"
    and "min (start + chunk_size) (int (length words)) - overlap \<le> start"
  then show "words_loop_opt chunk_size overlap words start cid chunks =
      Some (chunks @ [mk_chunk words start (min (start + chunk_size) (int (length words))) cid])"
    by (simp add: words_loop_opt_total words_loop_step)
qed

theorem chunk_by_words_terminates_witness:
  "chunk_by_words_opt 2 5 ''a b c'' = Some (chunk_by_words 2 5 ''a b c'') \<and>
   (0::int) < int (length [''a'', ''b'', ''c'']) \<and>
   min (0 + 2) (int (length [''a'', ''b'', ''c''])) - 5 \<le> (0::int) \<and>
   words_loop_opt 2 5 [''a'', ''b'', ''c''] 0 0 [] =
     Some [\<lparr>chunk_id = 0, ctext = ''a b'', word_count = 2, chunk_method = ''word-based'',
            start_word = 0, end_word = 2\<rparr>]"
  using chunk_by_words_terminates [of 2 5 "''a b c''" "[''a'', ''b'', ''c'']" 0 0 "[]"]
  by (simp add: mk_chunk_def py_slice_def)


text \<open>
  Claim C2, as amended. With \<open>0 \<le> overlap < chunk_size\<close>, the spans
  \<open>[start_word, end_word)\<close> of the chunks cover exactly the words of the text; each chunk
  after the first starts \<open>overlap\<close> words before the end of the one before it, and the two
  spans share exactly \<open>overlap\<close> positions; every chunk holds the words of its span, at
  most \<open>chunk_size\<close> of them, and exactly \<open>chunk_size\<close> unless it reaches the last word.
  Every chunk but the last two holds exactly \<open>chunk_size\<close> words: the last two may both
  be shorter.
\<close>

theorem chunk_by_words_cover_overlap:
  assumes "0 \<le> overlap" and "overlap < chunk_size"
  shows "(\<Union>c \<in> set (chunk_by_words chunk_size overlap txt). {start_word c ..< end_word c})
           = {0 ..< int (length (split_ws txt))} \<and>
         (\<forall>i. Suc i < length (chunk_by_words chunk_size overlap txt) \<longrightarrow>
            start_word (chunk_by_words chunk_size overlap txt ! Suc i)
              = end_word (chunk_by_words chunk_size overlap txt ! i) - overlap \<and>
            card ({start_word (chunk_by_words chunk_size overlap txt ! i) ..<
                     end_word (chunk_by_words chunk_size overlap txt ! i)} \<inter>
                  {start_word (chunk_by_words chunk_size overlap txt ! Suc i) ..<
                     end_word (chunk_by_words chunk_size overlap txt ! Suc i)}) = nat overlap) \<and>
         (\<forall>c \<in> set (chunk_by_words chunk_size overlap txt).
            0 \<le> start_word c \<and> start_word c < end_word c \<and>
            end_word c \<le> int (length (split_ws txt)) \<and>
            ctext c = join (py_slice (split_ws txt) (start_word c) (end_word c)) \<and>
            int (word_count c) = end_word c - start_word c \<and>
            int (word_count c) \<le> chunk_size \<and>
            (end_word c < int (length (split_ws txt)) \<longrightarrow> int (word_count c) = chunk_size)) \<and>
         (\<forall>i. Suc (Suc i) < length (chunk_by_words chunk_size overlap txt) \<longrightarrow>
            int (word_count (chunk_by_words chunk_size overlap txt ! i)) = chunk_size)"
proof (intro conjI allI impI ballI)
  let ?cs = "chunk_by_words chunk_size overlap txt"
  let ?n = "int (length (split_ws txt))"
  show "(\<Union>c \<in> set ?cs. {start_word c ..< end_word c}) = {0 ..< ?n}"
  proof (cases "0 < ?n")
    case True
    then show ?thesis
      unfolding chunk_by_words_def by (rule words_loop_cover [OF assms])
  next
    case False
    then show ?thesis
      by (simp add: chunk_by_words_def words_loop_Nil)
  qed
  have ch: "\<forall>i. Suc i < length ?cs \<longrightarrow>
      start_word (?cs ! Suc i) = end_word (?cs ! i) - overlap \<and>
      start_word (?cs ! i) < start_word (?cs ! Suc i) \<and> end_word (?cs ! i) \<le> end_word (?cs ! Suc i)"
    using words_loop_chain [of overlap chunk_size "split_ws txt" 0 0]
    unfolding chunk_by_words_def successively_conv_nth by blast
  {
    fix i assume i: "Suc i < length ?cs"
    with ch show "start_word (?cs ! Suc i) = end_word (?cs ! i) - overlap" by blast
    from ch i have a: "start_word (?cs ! Suc i) = end_word (?cs ! i) - overlap"
      and b: "start_word (?cs ! i) < start_word (?cs ! Suc i)"
      and c: "end_word (?cs ! i) \<le> end_word (?cs ! Suc i)" by blast+
    have "{start_word (?cs ! i) ..< end_word (?cs ! i)} \<inter> {start_word (?cs ! Suc i) ..< end_word (?cs ! Suc i)}
        = {end_word (?cs ! i) - overlap ..< end_word (?cs ! i)}"
      using a b c by auto
    then show "card ({start_word (?cs ! i) ..< end_word (?cs ! i)} \<inter>
                  {start_word (?cs ! Suc i) ..< end_word (?cs ! Suc i)}) = nat overlap"
      by simp
  }
  {
    fix c assume c: "c \<in> set ?cs"
    have e: "0 \<le> start_word c \<and> start_word c < end_word c \<and> end_word c \<le> ?n \<and>
     ctext c = join (py_slice (split_ws txt) (start_word c) (end_word c)) \<and>
     word_count c = nat (end_word c - start_word c) \<and>
     int (word_count c) \<le> chunk_size \<and>
     (end_word c < ?n \<longrightarrow> int (word_count c) = chunk_size)"
      by (rule words_loop_each [OF assms order_refl c [unfolded chunk_by_words_def]])
    from e show "0 \<le> start_word c" by blast
    from e show "start_word c < end_word c" by blast
    from e show "end_word c \<le> ?n" by blast
    from e show "ctext c = join (py_slice (split_ws txt) (start_word c) (end_word c))" by blast
    from e show "int (word_count c) = end_word c - start_word c" by simp
    from e show "int (word_count c) \<le> chunk_size" by blast
    assume "end_word c < ?n"
    with e show "int (word_count c) = chunk_size" by blast
  }
  {
    fix i assume i: "Suc (Suc i) < length ?cs"
    from ch i have a1: "start_word (?cs ! Suc i) = end_word (?cs ! i) - overlap"
      by simp
    from ch i have a2: "start_word (?cs ! Suc (Suc i)) = end_word (?cs ! Suc i) - overlap"
      and b2: "start_word (?cs ! Suc i) < start_word (?cs ! Suc (Suc i))"
      by blast+
    from i have m1: "?cs ! Suc i \<in> set ?cs" and m0: "?cs ! i \<in> set ?cs"
      by simp_all
    note e1 = words_loop_each [OF assms order_refl m1 [unfolded chunk_by_words_def]]
    note e0 = words_loop_each [OF assms order_refl m0 [unfolded chunk_by_words_def]]
    have "end_word (?cs ! Suc i) \<le> ?n"
      unfolding chunk_by_words_def using e1 by blast
    with a1 a2 b2 have "end_word (?cs ! i) < ?n" by linarith
    moreover have "end_word (?cs ! i) < ?n \<longrightarrow> int (word_count (?cs ! i)) = chunk_size"
      unfolding chunk_by_words_def using e0 by blast
    ultimately show "int (word_count (?cs ! i)) = chunk_size" by blast
  }
qed

text \<open>
  Claim C2 as stated lets only the final chunk be shorter than the chunk size. With chunk
  size 3 and overlap 1 the text \<open>a b c d\<close> gives three chunks of 3, 2 and 1 words: the
  second, which is not the final one, is short.
\<close>

theorem chunk_by_words_cover_overlap_counterexample:
  "(0::int) \<le> 1 \<and> (1::int) < 3 \<and>
   length (chunk_by_words 3 1 ''a b c d'') = 3 \<and>
   map word_count (chunk_by_words 3 1 ''a b c d'') = [3, 2, 1] \<and>
   int (word_count (chunk_by_words 3 1 ''a b c d'' ! 1)) < 3"
  by code_simp


theorem chunk_by_words_cover_overlap_witness:
  "(0::int) \<le> 1 \<and> (1::int) < 2 \<and>
   length (split_ws ''a b c d e'') = 5 \<and>
   Suc 0 < length (chunk_by_words 2 1 ''a b c d e'') \<and>
   start_word (chunk_by_words 2 1 ''a b c d e'' ! Suc 0)
     = end_word (chunk_by_words 2 1 ''a b c d e'' ! 0) - 1 \<and>
   card ({start_word (chunk_by_words 2 1 ''a b c d e'' ! 0) ..<
            end_word (chunk_by_words 2 1 ''a b c d e'' ! 0)} \<inter>
         {start_word (chunk_by_words 2 1 ''a b c d e'' ! Suc 0) ..<
            end_word (chunk_by_words 2 1 ''a b c d e'' ! Suc 0)}) = nat 1 \<and>
   map start_word (chunk_by_words 2 1 ''a b c d e'') = [0, 1, 2, 3, 4] \<and>
   map end_word (chunk_by_words 2 1 ''a b c d e'') = [2, 3, 4, 5, 5]"
proof -
  have a: "(0::int) \<le> 1" and b: "(1::int) < 2" by simp_all
  have w: "length (split_ws ''a b c d e'') = 5" by code_simp
  have l: "Suc 0 < length (chunk_by_words 2 1 ''a b c d e'')" by code_simp
  have s: "map start_word (chunk_by_words 2 1 ''a b c d e'') = [0, 1, 2, 3, 4]" by code_simp
  have e: "map end_word (chunk_by_words 2 1 ''a b c d e'') = [2, 3, 4, 5, 5]" by code_simp
  from chunk_by_words_cover_overlap [OF a b, of "''a b c d e''"] l
  have "start_word (chunk_by_words 2 1 ''a b c d e'' ! Suc 0)
     = end_word (chunk_by_words 2 1 ''a b c d e'' ! 0) - 1 \<and>
   card ({start_word (chunk_by_words 2 1 ''a b c d e'' ! 0) ..<
            end_word (chunk_by_words 2 1 ''a b c d e'' ! 0)} \<inter>
         {start_word (chunk_by_words 2 1 ''a b c d e'' ! Suc 0) ..<
            end_word (chunk_by_words 2 1 ''a b c d e'' ! Suc 0)}) = nat 1"
    by blast
  with a b w l s e show ?thesis by blast
qed

section \<open>Word counts and sequence numbers\<close>

text \<open>
  Claim C7. In the output of either strategy, the recorded \<open>word_count\<close> of every chunk
  is the number of whitespace-delimited words of its text, and the \<open>chunk_id\<close>s are
  0, 1, 2, ... in the order of the list; the word chunks come in the order of the document,
  each starting after the one before it.
\<close>

theorem chunk_word_count_and_ids:
  "(\<forall>c \<in> set (chunk_by_words chunk_size overlap txt). word_count c = count_words (ctext c)) \<and>
   map chunk_id (chunk_by_words chunk_size overlap txt)
     = [0 ..< length (chunk_by_words chunk_size overlap txt)] \<and>
   sorted_wrt (<) (map start_word (chunk_by_words chunk_size overlap txt)) \<and>
   (\<forall>c \<in> set (chunk_by_sentences chunk_size txt). word_count c = count_words (ctext c)) \<and>
   map chunk_id (chunk_by_sentences chunk_size txt)
     = [0 ..< length (chunk_by_sentences chunk_size txt)]"
proof (intro conjI ballI)
  fix c assume "c \<in> set (chunk_by_words chunk_size overlap txt)"
  then show "word_count c = count_words (ctext c)" by (rule word_chunk_count)
next
  show "map chunk_id (chunk_by_words chunk_size overlap txt)
     = [0 ..< length (chunk_by_words chunk_size overlap txt)]"
    using words_loop_ids [of chunk_size overlap "split_ws txt" 0 0]
    by (simp add: chunk_by_words_def)
next
  have "successively (\<lambda>c c'. start_word c < start_word c') (chunk_by_words chunk_size overlap txt)"
    unfolding chunk_by_words_def
    by (rule successively_mono [OF words_loop_chain]) auto
  then have "successively (<) (map start_word (chunk_by_words chunk_size overlap txt))"
    by (simp add: successively_map)
  then show "sorted_wrt (<) (map start_word (chunk_by_words chunk_size overlap txt))"
    by (simp add: successively_iff_sorted_wrt_strong [symmetric])
next
  obtain groups where
    t: "map ctext (chunk_by_sentences chunk_size txt) = map join groups" and
    w: "map word_count (chunk_by_sentences chunk_size txt)
          = map (\<lambda>g. sum_list (map count_words g)) groups"
    using chunk_by_sentences_groups [of chunk_size "txt"] by blast
  fix c assume "c \<in> set (chunk_by_sentences chunk_size txt)"
  then obtain i where i: "i < length (chunk_by_sentences chunk_size txt)"
    and c: "c = chunk_by_sentences chunk_size txt ! i"
    by (auto simp add: in_set_conv_nth)
  have len: "length groups = length (chunk_by_sentences chunk_size txt)"
    using t by (metis length_map)
  have "ctext c = join (groups ! i)"
    using t i c len by (metis nth_map)
  moreover have "word_count c = sum_list (map count_words (groups ! i))"
    using w i c len by (metis (no_types, lifting) nth_map)
  ultimately show "word_count c = count_words (ctext c)"
    by (simp add: count_words_join)
next
  show "map chunk_id (chunk_by_sentences chunk_size txt)
     = [0 ..< length (chunk_by_sentences chunk_size txt)]"
    using chunk_by_sentences_groups [of chunk_size "txt"] by blast
qed



theorem chunk_word_count_and_ids_witness:
  "chunk_by_words 2 1 ''A b. C d. E f.'' \<noteq> [] \<and>
   word_count (hd (chunk_by_words 2 1 ''A b. C d. E f.''))
     = count_words (ctext (hd (chunk_by_words 2 1 ''A b. C d. E f.''))) \<and>
   map chunk_id (chunk_by_words 2 1 ''A b. C d. E f.'') = [0, 1, 2, 3, 4, 5] \<and>
   chunk_by_sentences 2 ''A b. C d. E f.'' \<noteq> [] \<and>
   word_count (last (chunk_by_sentences 2 ''A b. C d. E f.''))
     = count_words (ctext (last (chunk_by_sentences 2 ''A b. C d. E f.''))) \<and>
   map chunk_id (chunk_by_sentences 2 ''A b. C d. E f.'') = [0, 1, 2]"
proof -
  let ?T = "''A b. C d. E f.''"
  have w: "length (chunk_by_words 2 1 ?T) = 6" by code_simp
  have s: "length (chunk_by_sentences 2 ?T) = 3" by code_simp
  from w have wn: "chunk_by_words 2 1 ?T \<noteq> []" by auto
  from s have sn: "chunk_by_sentences 2 ?T \<noteq> []" by auto
  have u6: "[0 ..< 6] = [0, 1, 2, 3, 4, 5]" by code_simp
  have u3: "[0 ..< 3] = [0, 1, 2]" by code_simp
  note t = chunk_word_count_and_ids [of 2 1 ?T]
  from t wn have "word_count (hd (chunk_by_words 2 1 ?T))
     = count_words (ctext (hd (chunk_by_words 2 1 ?T)))"
    using hd_in_set by blast
  moreover from t sn have "word_count (last (chunk_by_sentences 2 ?T))
     = count_words (ctext (last (chunk_by_sentences 2 ?T)))"
    using last_in_set by blast
  moreover from t w u6 have "map chunk_id (chunk_by_words 2 1 ?T) = [0, 1, 2, 3, 4, 5]"
    by simp
  moreover from t s u3 have "map chunk_id (chunk_by_sentences 2 ?T) = [0, 1, 2]"
    by simp
  ultimately show ?thesis using wn sn by blast
qed



section \<open>Sentence-based segmentation: the claim\<close>

lemma chunk_by_sentences_single:
  "split_into_sentences txt = [s] \<Longrightarrow>
   chunk_by_sentences chunk_size txt =
     [\<lparr>chunk_id = 0, ctext = s, word_count = count_words s,
       chunk_method = ''sentence-based'', sentence_count = 1\<rparr>]"
  by (simp add: chunk_by_sentences_def sentence_step_def)

text \<open>
  Claim C4. The text of every sentence chunk is the join of a list of whole sentences, a
  run of consecutive sentences of the sentence split of the input, and no sentence of the
  split is left out. The list of each chunk after the first begins with the last two
  sentences of the list before it (with the only one when there is just one) and goes on
  after them. The first sentence opens the first chunk whatever its length; a text of a
  single sentence gives the one chunk holding that sentence, whatever the chunk size.
\<close>

theorem chunk_by_sentences_whole_sentences:
  "\<exists>groups.
     map ctext (chunk_by_sentences chunk_size txt) = map join groups \<and>
     map sentence_count (chunk_by_sentences chunk_size txt) = map length groups \<and>
     (\<forall>g \<in> set groups. g \<noteq> [] \<and> sublist g (split_into_sentences txt)) \<and>
     (\<forall>i. Suc i < length groups \<longrightarrow>
        take (min 2 (length (groups ! i))) (groups ! Suc i)
          = drop (length (groups ! i) - min 2 (length (groups ! i))) (groups ! i) \<and>
        min 2 (length (groups ! i)) < length (groups ! Suc i)) \<and>
     (\<forall>s \<in> set (split_into_sentences txt). \<exists>g \<in> set groups. s \<in> set g) \<and>
     (\<forall>s rest. split_into_sentences txt = s # rest \<longrightarrow>
        groups \<noteq> [] \<and> hd (hd groups) = s) \<and>
     (\<forall>s. split_into_sentences txt = [s] \<longrightarrow>
        chunk_by_sentences chunk_size txt =
          [\<lparr>chunk_id = 0, ctext = s, word_count = count_words s,
            chunk_method = ''sentence-based'', sentence_count = 1\<rparr>])"
proof -
  obtain groups where
    a: "map ctext (chunk_by_sentences chunk_size txt) = map join groups" and
    b: "map sentence_count (chunk_by_sentences chunk_size txt) = map length groups" and
    c: "\<forall>g \<in> set groups. g \<noteq> [] \<and> sublist g (split_into_sentences txt)" and
    d: "successively carries_over groups" and
    e: "set (split_into_sentences txt) \<subseteq> \<Union> (set ` set groups)" and
    f: "split_into_sentences txt \<noteq> [] \<longrightarrow>
          groups \<noteq> [] \<and> hd (hd groups) = hd (split_into_sentences txt)"
    using chunk_by_sentences_groups [of chunk_size "txt"] by blast
  have d': "\<forall>i. Suc i < length groups \<longrightarrow>
        take (min 2 (length (groups ! i))) (groups ! Suc i)
          = drop (length (groups ! i) - min 2 (length (groups ! i))) (groups ! i) \<and>
        min 2 (length (groups ! i)) < length (groups ! Suc i)"
    using d unfolding successively_conv_nth carries_over_def by blast
  have e': "\<forall>s \<in> set (split_into_sentences txt). \<exists>g \<in> set groups. s \<in> set g"
    using e by auto
  have f': "\<forall>s rest. split_into_sentences txt = s # rest \<longrightarrow>
        groups \<noteq> [] \<and> hd (hd groups) = s"
    using f by auto
  have g: "\<forall>s. split_into_sentences txt = [s] \<longrightarrow>
        chunk_by_sentences chunk_size txt =
          [\<lparr>chunk_id = 0, ctext = s, word_count = count_words s,
            chunk_method = ''sentence-based'', sentence_count = 1\<rparr>]"
    by (simp add: chunk_by_sentences_single)
  from a b c d' e' f' g show ?thesis by blast
qed



theorem chunk_by_sentences_whole_sentences_witness:
  "split_into_sentences ''A b. C d. E f. G h.'' = [''A b.'', ''C d.'', ''E f.'', ''G h.''] \<and>
   map ctext (chunk_by_sentences 4 ''A b. C d. E f. G h.'')
     = [''A b. C d.'', ''A b. C d. E f.'', ''C d. E f. G h.''] \<and>
   (\<exists>groups.
      map ctext (chunk_by_sentences 4 ''A b. C d. E f. G h.'') = map join groups \<and>
      map length groups = [2, 3, 3] \<and>
      sublist (groups ! 0) [''A b.'', ''C d.'', ''E f.'', ''G h.''] \<and>
      take 2 (groups ! 1) = groups ! 0 \<and>
      take 2 (groups ! 2) = drop 1 (groups ! 1) \<and>
      hd (hd groups) = ''A b.'')"
proof -
  let ?T = "''A b. C d. E f. G h.''"
  have ss: "split_into_sentences ?T = [''A b.'', ''C d.'', ''E f.'', ''G h.'']"
    by code_simp
  have ct: "map ctext (chunk_by_sentences 4 ?T)
     = [''A b. C d.'', ''A b. C d. E f.'', ''C d. E f. G h.'']"
    by code_simp
  have sc: "map sentence_count (chunk_by_sentences 4 ?T) = [2, 3, 3]"
    by code_simp
  from chunk_by_sentences_whole_sentences [of 4 ?T]
  obtain groups where all:
    "map ctext (chunk_by_sentences 4 ?T) = map join groups \<and>
     map sentence_count (chunk_by_sentences 4 ?T) = map length groups \<and>
     (\<forall>g \<in> set groups. g \<noteq> [] \<and> sublist g (split_into_sentences ?T)) \<and>
     (\<forall>i. Suc i < length groups \<longrightarrow>
        take (min 2 (length (groups ! i))) (groups ! Suc i)
          = drop (length (groups ! i) - min 2 (length (groups ! i))) (groups ! i) \<and>
        min 2 (length (groups ! i)) < length (groups ! Suc i)) \<and>
     (\<forall>s \<in> set (split_into_sentences ?T). \<exists>g \<in> set groups. s \<in> set g) \<and>
     (\<forall>s rest. split_into_sentences ?T = s # rest \<longrightarrow>
        groups \<noteq> [] \<and> hd (hd groups) = s) \<and>
     (\<forall>s. split_into_sentences ?T = [s] \<longrightarrow>
        chunk_by_sentences 4 ?T =
          [\<lparr>chunk_id = 0, ctext = s, word_count = count_words s,
            chunk_method = ''sentence-based'', sentence_count = 1\<rparr>])" ..
  from all have a: "map ctext (chunk_by_sentences 4 ?T) = map join groups"
    by (elim conjE)
  from all have b: "map sentence_count (chunk_by_sentences 4 ?T) = map length groups"
    by (elim conjE)
  from all have c: "\<forall>g \<in> set groups. g \<noteq> [] \<and> sublist g (split_into_sentences ?T)"
    by (elim conjE)
  from all have d: "\<forall>i. Suc i < length groups \<longrightarrow>
        take (min 2 (length (groups ! i))) (groups ! Suc i)
          = drop (length (groups ! i) - min 2 (length (groups ! i))) (groups ! i) \<and>
        min 2 (length (groups ! i)) < length (groups ! Suc i)"
    by (elim conjE)
  from all have f: "\<forall>s rest. split_into_sentences ?T = s # rest \<longrightarrow>
        groups \<noteq> [] \<and> hd (hd groups) = s"
    by (elim conjE)
  from b sc have len: "map length groups = [2, 3, 3]" by simp
  have lg: "length groups = 3"
    using arg_cong [OF len, of length] by simp
  have l0: "length (groups ! 0) = 2"
    using arg_cong [OF len, of "\<lambda>xs. xs ! 0"] lg by simp
  have l1: "length (groups ! 1) = 3"
    using arg_cong [OF len, of "\<lambda>xs. xs ! 1"] lg by simp
  have m0: "groups ! 0 \<in> set groups" using lg by simp
  from c m0 have "sublist (groups ! 0) (split_into_sentences ?T)" by blast
  then have p1: "sublist (groups ! 0) [''A b.'', ''C d.'', ''E f.'', ''G h.'']"
    by (simp only: ss)
  have i0: "Suc 0 < length groups" and i1: "Suc 1 < length groups"
    using lg by simp_all
  from d i0 have "take (min 2 (length (groups ! 0))) (groups ! Suc 0)
          = drop (length (groups ! 0) - min 2 (length (groups ! 0))) (groups ! 0)"
    by blast
  then have p2: "take 2 (groups ! 1) = groups ! 0"
    by (simp add: l0)
  have l1': "length (groups ! Suc 0) = 3" using l1 by simp
  from d i1 have "take (min 2 (length (groups ! Suc 0))) (groups ! Suc (Suc 0))
          = drop (length (groups ! Suc 0) - min 2 (length (groups ! Suc 0))) (groups ! Suc 0)"
    by (simp add: eval_nat_numeral)
  then have p3: "take 2 (groups ! 2) = drop 1 (groups ! 1)"
    using l1' by (simp add: eval_nat_numeral)
  from f ss have p4: "hd (hd groups) = ''A b.''"
    by blast
  show ?thesis
    by (intro conjI exI [of _ groups]) (fact ss ct a len p1 p2 p3 p4)+
qed



section \<open>TextCleaner: the normal form\<close>





















section \<open>FAQFinder: the scenario and the zero threshold\<close>

text \<open>
  Claim C6. With the single entry "How do I register?" / "Click the register button.",
  the query "How can I sign up?" at threshold 0.15 returns that answer and that question:
  the synonyms of "sign" and of "register" give five common tokens out of six.
\<close>
theorem find_answer_register:
  "find_answer (add_faq [] ''How do I register?'' ''Click the register button.'')
     ''How can I sign up?'' (15 / 100)
   = Inr \<lparr>res_answer = ''Click the register button.'', confidence = 5 / 6,
          matched_question = Some ''How do I register?''\<rparr>"
  by code_simp

lemma jaccard_disjoint: "A \<inter> B = {} \<Longrightarrow> jaccard A B = 0"
  by (simp add: jaccard_def Let_def)

lemma scan_all_zero:
  "\<forall>f \<in> set faqs. jaccard user_words (token_set (question_clean f)) = 0 \<Longrightarrow>
   foldl (scan_step user_words) (None, 0) faqs = (None, 0)"
  by (induction faqs) (simp_all add: scan_step_def)

text \<open>
  Claim C10. On a non-empty corpus, with threshold 0 and a query whose token set shares
  nothing with the token set of any entry, every score is 0, no entry is ever selected,
  the test \<open>best_score < threshold\<close> fails, and subscripting the missing best match
  raises: no result is returned.
\<close>
theorem find_answer_zero_threshold_raises:
  assumes "faqs \<noteq> []"
    and "\<forall>f \<in> set faqs.
           token_set (clean_text user_question) \<inter> token_set (question_clean f) = {}"
  shows "find_answer faqs user_question 0 = Inl TypeError"
proof -
  have "foldl (scan_step (token_set (clean_text user_question))) (None, 0) faqs = (None, 0)"
    using assms(2) by (intro scan_all_zero) (simp add: jaccard_disjoint)
  with assms(1) show ?thesis
    by (simp add: find_answer_def Let_def)
qed

theorem find_answer_zero_threshold_raises_witness:
  "add_faq [] ''hello'' ''x'' \<noteq> [] \<and>
   token_set (clean_text ''world'') \<inter> token_set (question_clean (hd (add_faq [] ''hello'' ''x''))) = {} \<and>
   find_answer (add_faq [] ''hello'' ''x'') ''world'' 0 = Inl TypeError"
proof -
  have a: "add_faq [] ''hello'' ''x'' \<noteq> []" by (simp add: add_faq_def)
  have d: "token_set (clean_text ''world'')
      \<inter> token_set (question_clean (hd (add_faq [] ''hello'' ''x''))) = {}"
    by code_simp
  have b: "\<forall>f \<in> set (add_faq [] ''hello'' ''x'').
           token_set (clean_text ''world'') \<inter> token_set (question_clean f) = {}"
    using d by (simp add: add_faq_def)
  from find_answer_zero_threshold_raises [OF a b] a d show ?thesis by (intro conjI)
qed

section \<open>RAGAgent: no passages\<close>

text \<open>
  Claim C9. When retrieval gives no passage, the result has \<open>has_sources\<close> false, no
  sources and \<open>num_sources\<close> 0, and its answer is what the completion service returns on
  the prompt that quotes the question, says that the knowledge base holds nothing relevant
  and asks for an honest statement of that. The prompt has no source block: every opening
  bracket in it comes from the question.
\<close>
theorem rag_answer_no_passages:
  assumes \<open>retrieve_context knowledge_base query top_k = []\<close>
  shows \<open>has_sources (rag_answer knowledge_base generate query top_k) = False \<and>
     sources (rag_answer knowledge_base generate query top_k) = [] \<and>
     num_sources (rag_answer knowledge_base generate query top_k) = 0 \<and>
     ar_answer (rag_answer knowledge_base generate query top_k)
       = generate (build_prompt_with_context query []) \<and>
     build_prompt_with_context query [] =
       ''The user asked: "'' @ query @ ''"\<newline>\<newline>You don't have any relevant information in your knowledge base to answer this question.\<newline>Please respond honestly that you don't have this information available, and suggest \<newline>that the user might need to provide relevant documents or ask a different question.'' \<and>
     sublist ''You don't have any relevant information in your knowledge base to answer this question.''
       (build_prompt_with_context query []) \<and>
     sublist ''Please respond honestly that you don't have this information available''
       (build_prompt_with_context query []) \<and>
     filter (\<lambda>c. c = CHR ''['') (build_prompt_with_context query [])
       = filter (\<lambda>c. c = CHR ''['') query\<close>
proof (intro conjI)
  show \<open>has_sources (rag_answer knowledge_base generate query top_k) = False\<close>
    using assms by (simp add: rag_answer_def Let_def)
  show \<open>sources (rag_answer knowledge_base generate query top_k) = []\<close>
    using assms by (simp add: rag_answer_def Let_def)
  show \<open>num_sources (rag_answer knowledge_base generate query top_k) = 0\<close>
    using assms by (simp add: rag_answer_def Let_def)
  show \<open>ar_answer (rag_answer knowledge_base generate query top_k)
       = generate (build_prompt_with_context query [])\<close>
    using assms by (simp add: rag_answer_def Let_def)
  show \<open>build_prompt_with_context query [] =
       ''The user asked: "'' @ query @ ''"\<newline>\<newline>You don't have any relevant information in your knowledge base to answer this question.\<newline>Please respond honestly that you don't have this information available, and suggest \<newline>that the user might need to provide relevant documents or ask a different question.''\<close>
    by (simp add: build_prompt_with_context_def)
  show \<open>sublist ''You don't have any relevant information in your knowledge base to answer this question.''
       (build_prompt_with_context query [])\<close>
    unfolding sublist_def
    by (rule exI [of _ \<open>''The user asked: "'' @ query @ ''"\<newline>\<newline>''\<close>],
        rule exI [of _ \<open>''\<newline>Please respond honestly that you don't have this information available, and suggest \<newline>that the user might need to provide relevant documents or ask a different question.''\<close>])
       (simp add: build_prompt_with_context_def)
  show \<open>sublist ''Please respond honestly that you don't have this information available''
       (build_prompt_with_context query [])\<close>
    unfolding sublist_def
    by (rule exI [of _ \<open>''The user asked: "'' @ query @ ''"\<newline>\<newline>You don't have any relevant information in your knowledge base to answer this question.\<newline>''\<close>],
        rule exI [of _ \<open>'', and suggest \<newline>that the user might need to provide relevant documents or ask a different question.''\<close>])
       (simp add: build_prompt_with_context_def)
  show \<open>filter (\<lambda>c. c = CHR ''['') (build_prompt_with_context query [])
       = filter (\<lambda>c. c = CHR ''['') query\<close>
    by (simp add: build_prompt_with_context_def)
qed

theorem rag_answer_no_passages_witness:
  \<open>retrieve_context None ''q'' 3 = [] \<and>
   has_sources (rag_answer None id ''q'' 3) = False \<and>
   sources (rag_answer None id ''q'' 3) = [] \<and>
   ar_answer (rag_answer None id ''q'' 3) =
     ''The user asked: "q"\<newline>\<newline>You don't have any relevant information in your knowledge base to answer this question.\<newline>Please respond honestly that you don't have this information available, and suggest \<newline>that the user might need to provide relevant documents or ask a different question.''\<close>
proof -
  have h: \<open>retrieve_context None ''q'' 3 = []\<close>
    by (simp add: retrieve_context_def)
  from rag_answer_no_passages [OF h, of id] h show ?thesis
    by simp
qed

end
